theory Spec2Isabelle
  imports Main
begin

section \<open>The chain-of-responsibility cash dispenser (src/atm-cor-lld/index.ts)\<close>

text \<open>
  Numbers of the source are modelled as unbounded integers: amounts, note values and note
  counts are integral in every use the program makes of them. \<open>Math.floor(a / v)\<close> is
  \<open>a div v\<close> on \<open>int\<close> for every \<open>v \<noteq> 0\<close> (floored division). For \<open>v = 0\<close> the
  source computes with \<open>Infinity\<close> and \<open>NaN\<close>, which have no integer counterpart; the
  statements below that depend on the division are therefore made for positive note
  values, as the three handler classes of the source have them.
\<close>

subsection \<open>Data model\<close>

text \<open>
  \<open>interface IDispenseResponse\<close>: the success flag and the object \<open>notesDispensed\<close>,
  a dictionary from note value to count.
\<close>

record IDispenseResponse =
  success :: bool
  notesDispensed :: "int \<rightharpoonup> int"

text \<open>
  \<open>abstract class INoteHandler\<close>: the fields \<open>noteValue\<close> (readonly) and
  \<open>noteCount\<close>. The field \<open>nextHandler\<close> is the position in the chain: a handler is
  passed together with the list of the handlers reachable through \<open>nextHandler\<close>, the
  empty list standing for \<open>null\<close>.
\<close>

record INoteHandler =
  noteValue :: int
  noteCount :: int

subsection \<open>INoteHandler.dispense\<close>

text \<open>
  Lines 58--73: \<open>requiredNotes\<close> and the two allocation branches. The result is the
  handler's own \<open>notesDispensed\<close>, \<open>remainingAmount\<close> and the new \<open>noteCount\<close>.
\<close>

definition allocate :: "INoteHandler \<Rightarrow> bool \<Rightarrow> int \<Rightarrow> (int \<rightharpoonup> int) \<times> int \<times> int" where
  "allocate this hasNext amount =
     (let requiredNotes = amount div noteValue this in
      if requiredNotes < noteCount this then
        (Map.empty(noteValue this \<mapsto> requiredNotes),
         amount - noteValue this * requiredNotes,
         noteCount this - requiredNotes)
      else if requiredNotes > noteCount this \<and> hasNext then
        (Map.empty(noteValue this \<mapsto> noteCount this),
         amount - noteValue this * noteCount this,
         0)
      else (Map.empty, amount, noteCount this))"

text \<open>Line 89: \<open>response.notesDispensed[this.noteValue] || 0\<close>.\<close>

definition orZero :: "int option \<Rightarrow> int" where
  "orZero x = (case x of None \<Rightarrow> 0 | Some c \<Rightarrow> c)"

text \<open>
  Lines 57--93. The second component of the result is the chain after the call, this
  handler first.
\<close>

fun dispense :: "INoteHandler \<Rightarrow> INoteHandler list \<Rightarrow> int \<Rightarrow> IDispenseResponse \<times> INoteHandler list" where
  "dispense this [] amount =
     (case allocate this False amount of (nd, remainingAmount, cnt) \<Rightarrow>
        if remainingAmount = 0 then
          (\<lparr>success = True, notesDispensed = nd\<rparr>, [this\<lparr>noteCount := cnt\<rparr>])
        else
          (\<lparr>success = False, notesDispensed = nd\<rparr>,
           [this\<lparr>noteCount := cnt + orZero (nd (noteValue this))\<rparr>]))"
| "dispense this (nextHandler # others) amount =
     (case allocate this True amount of (nd, remainingAmount, cnt) \<Rightarrow>
        if remainingAmount = 0 then
          (\<lparr>success = True, notesDispensed = nd\<rparr>,
           this\<lparr>noteCount := cnt\<rparr> # nextHandler # others)
        else if remainingAmount > 0 then
          (case dispense nextHandler others remainingAmount of (nextResponse, chain') \<Rightarrow>
             if success nextResponse then
               (\<lparr>success = True, notesDispensed = nd ++ notesDispensed nextResponse\<rparr>,
                this\<lparr>noteCount := cnt\<rparr> # chain')
             else
               (\<lparr>success = False, notesDispensed = nd\<rparr>,
                this\<lparr>noteCount := cnt + orZero (nd (noteValue this))\<rparr> # chain'))
        else
          (\<lparr>success = False, notesDispensed = nd\<rparr>,
           this\<lparr>noteCount := cnt + orZero (nd (noteValue this))\<rparr> # nextHandler # others))"

subsection \<open>MainHandler.dispense\<close>

text \<open>Lines 29--39; \<open>this.nextHandler\<close> is the head of the chain.\<close>

definition MainHandler_dispense :: "INoteHandler \<Rightarrow> INoteHandler list \<Rightarrow> int \<Rightarrow> IDispenseResponse \<times> INoteHandler list" where
  "MainHandler_dispense nextHandler others amount =
     (if amount \<le> 0 \<or> amount < 100 then
        (\<lparr>success = False, notesDispensed = Map.empty\<rparr>, nextHandler # others)
      else
        (case dispense nextHandler others amount of (response, chain') \<Rightarrow>
           (if success response then response
            else \<lparr>success = False, notesDispensed = Map.empty\<rparr>, chain')))"

subsection \<open>Measures used by the statements\<close>

text \<open>The sum over all entries of a \<open>notesDispensed\<close> object of note value times count.\<close>

definition weightedSum :: "(int \<rightharpoonup> int) \<Rightarrow> int" where
  "weightedSum m = (\<Sum>k\<in>dom m. k * the (m k))"

text \<open>
  A handler's stock after the counts of a \<open>notesDispensed\<close> object have been taken
  from it: the count recorded for its note value, zero when the key is absent.
\<close>

definition debit :: "(int \<rightharpoonup> int) \<Rightarrow> INoteHandler \<Rightarrow> INoteHandler" where
  "debit m h = h\<lparr>noteCount := noteCount h - orZero (m (noteValue h))\<rparr>"

text \<open>The total value of all stock in a chain.\<close>

definition totalValue :: "INoteHandler list \<Rightarrow> int" where
  "totalValue chain = (\<Sum>h\<leftarrow>chain. noteValue h * noteCount h)"

text \<open>
  Some handler of the chain would be asked for exactly the notes it holds
  (\<open>requiredNotes = noteCount\<close>) once the stock of every handler before it has been
  taken from the amount. The predicate reads the chain and the amount only; it is the
  condition of lines 65 and 69 under which neither allocation branch runs.
\<close>

fun exactHit :: "INoteHandler list \<Rightarrow> int \<Rightarrow> bool" where
  "exactHit [] amount = False"
| "exactHit (h # hs) amount =
     (amount div noteValue h = noteCount h \<or>
      exactHit hs (amount - noteValue h * noteCount h))"

subsection \<open>The concrete handlers\<close>

text \<open>
  Lines 101--117: the three concrete handler classes, each fixing the note value and taking
  the initial count.
\<close>

definition ThousandWorthHandler :: "int \<Rightarrow> INoteHandler" where
  "ThousandWorthHandler n = \<lparr>noteValue = 1000, noteCount = n\<rparr>"

definition FiveHundredWorthHandler :: "int \<Rightarrow> INoteHandler" where
  "FiveHundredWorthHandler n = \<lparr>noteValue = 500, noteCount = n\<rparr>"

definition HundredWorthHandler :: "int \<Rightarrow> INoteHandler" where
  "HundredWorthHandler n = \<lparr>noteValue = 100, noteCount = n\<rparr>"

lemmas handler_defs =
  ThousandWorthHandler_def FiveHundredWorthHandler_def HundredWorthHandler_def

section \<open>The allocation step\<close>

lemma allocate_cases:
  assumes "allocate this hasNext amount = (nd, remainingAmount, cnt)"
  obtains
    (A) "amount div noteValue this < noteCount this"
        "nd = Map.empty(noteValue this \<mapsto> amount div noteValue this)"
        "remainingAmount = amount - noteValue this * (amount div noteValue this)"
        "cnt = noteCount this - amount div noteValue this"
  | (B) "amount div noteValue this > noteCount this" "hasNext"
        "nd = Map.empty(noteValue this \<mapsto> noteCount this)"
        "remainingAmount = amount - noteValue this * noteCount this"
        "cnt = 0"
  | (C) "\<not> amount div noteValue this < noteCount this"
        "\<not> (amount div noteValue this > noteCount this \<and> hasNext)"
        "nd = Map.empty" "remainingAmount = amount" "cnt = noteCount this"
proof (cases "amount div noteValue this < noteCount this")
  case True
  with assms show ?thesis by (intro A) (simp_all add: allocate_def Let_def)
next
  case notA: False
  show ?thesis
  proof (cases "amount div noteValue this > noteCount this \<and> hasNext")
    case True
    with notA assms show ?thesis by (intro B) (simp_all add: allocate_def Let_def)
  next
    case False
    with notA assms show ?thesis by (intro C) (auto simp: allocate_def Let_def)
  qed
qed

lemma allocate_entire_stock:
  "noteCount this < amount div noteValue this \<Longrightarrow>
   allocate this True amount =
     (Map.empty(noteValue this \<mapsto> noteCount this),
      amount - noteValue this * noteCount this, 0)"
  by (simp add: allocate_def Let_def)

lemma allocate_dom:
  "allocate this hasNext amount = (nd, remainingAmount, cnt) \<Longrightarrow> dom nd \<subseteq> {noteValue this}"
  by (erule allocate_cases) auto

lemma allocate_remaining:
  "allocate this hasNext amount = (nd, remainingAmount, cnt) \<Longrightarrow>
   remainingAmount = amount - noteValue this * orZero (nd (noteValue this))"
  by (erule allocate_cases) (auto simp: orZero_def)

lemma allocate_count:
  "allocate this hasNext amount = (nd, remainingAmount, cnt) \<Longrightarrow>
   cnt = noteCount this - orZero (nd (noteValue this))"
  by (erule allocate_cases) (auto simp: orZero_def)

lemma allocate_weightedSum:
  "allocate this hasNext amount = (nd, remainingAmount, cnt) \<Longrightarrow>
   weightedSum nd = noteValue this * orZero (nd (noteValue this))"
  by (erule allocate_cases) (auto simp: orZero_def weightedSum_def)

lemma allocate_rollback:
  "allocate this hasNext amount = (nd, remainingAmount, cnt) \<Longrightarrow>
   this\<lparr>noteCount := cnt + orZero (nd (noteValue this))\<rparr> = this"
  using allocate_count [of this hasNext amount nd remainingAmount cnt] by simp

lemma allocate_bounds:
  "0 \<le> noteCount this \<Longrightarrow> allocate this hasNext amount = (nd, remainingAmount, cnt) \<Longrightarrow>
   0 \<le> cnt \<and> orZero (nd (noteValue this)) \<le> noteCount this"
  by (erule allocate_cases) (auto simp: orZero_def)

section \<open>The weighted sum of an allocation\<close>

lemma weightedSum_add:
  assumes "finite (dom m)" "finite (dom n)" "dom m \<inter> dom n = {}"
  shows "weightedSum (m ++ n) = weightedSum m + weightedSum n"
proof -
  have "weightedSum (m ++ n) = (\<Sum>k\<in>dom m \<union> dom n. k * the ((m ++ n) k))"
    by (simp add: weightedSum_def Un_commute)
  also have "\<dots> = (\<Sum>k\<in>dom m. k * the ((m ++ n) k)) + (\<Sum>k\<in>dom n. k * the ((m ++ n) k))"
    using assms by (rule sum.union_disjoint)
  also have "(\<Sum>k\<in>dom m. k * the ((m ++ n) k)) = (\<Sum>k\<in>dom m. k * the (m k))"
  proof (rule sum.cong)
    fix k assume "k \<in> dom m"
    with assms(3) have "k \<notin> dom n" by auto
    then show "k * the ((m ++ n) k) = k * the (m k)"
      by (simp add: map_add_dom_app_simps)
  qed simp
  also have "(\<Sum>k\<in>dom n. k * the ((m ++ n) k)) = (\<Sum>k\<in>dom n. k * the (n k))"
    by (rule sum.cong) (simp_all add: map_add_dom_app_simps)
  finally show ?thesis by (simp add: weightedSum_def)
qed

lemma dispense_dom:
  "dispense this others amount = (r, ch) \<Longrightarrow>
   dom (notesDispensed r) \<subseteq> noteValue ` set (this # others)"
proof (induction others arbitrary: this amount r ch)
  case Nil
  obtain nd rem cnt where al: "allocate this False amount = (nd, rem, cnt)"
    by (cases "allocate this False amount") auto
  from Nil al have "notesDispensed r = nd"
    by (auto split: if_splits)
  with allocate_dom [OF al] show ?case by auto
next
  case (Cons n ns)
  obtain nd rem cnt where al: "allocate this True amount = (nd, rem, cnt)"
    by (cases "allocate this True amount") auto
  obtain nr ch' where rec: "dispense n ns rem = (nr, ch')"
    by (cases "dispense n ns rem") auto
  from Cons.IH [OF rec] have sub: "dom (notesDispensed nr) \<subseteq> noteValue ` set (n # ns)" .
  from Cons.prems al rec
  have "notesDispensed r = nd \<or> notesDispensed r = nd ++ notesDispensed nr"
    by (auto split: if_splits)
  then have "dom (notesDispensed r) \<subseteq> dom nd \<union> dom (notesDispensed nr)"
    by auto
  also have "\<dots> \<subseteq> noteValue ` set (this # n # ns)"
    using allocate_dom [OF al] sub by auto
  finally show ?case .
qed

lemma dispense_weightedSum:
  "distinct (map noteValue (this # others)) \<Longrightarrow>
   dispense this others amount = (r, ch) \<Longrightarrow> success r \<Longrightarrow>
   weightedSum (notesDispensed r) = amount"
proof (induction others arbitrary: this amount r ch)
  case Nil
  obtain nd rem cnt where al: "allocate this False amount = (nd, rem, cnt)"
    by (cases "allocate this False amount") auto
  from Nil al have "rem = 0" "notesDispensed r = nd"
    by (auto split: if_splits)
  with allocate_remaining [OF al] allocate_weightedSum [OF al] show ?case by simp
next
  case (Cons n ns)
  obtain nd rem cnt where al: "allocate this True amount = (nd, rem, cnt)"
    by (cases "allocate this True amount") auto
  note rm = allocate_remaining [OF al] and ws = allocate_weightedSum [OF al]
  show ?case
  proof (cases "rem = 0")
    case True
    with Cons.prems al have "notesDispensed r = nd" by auto
    with True rm ws show ?thesis by simp
  next
    case False
    obtain nr ch' where rec: "dispense n ns rem = (nr, ch')"
      by (cases "dispense n ns rem") auto
    from False Cons.prems al rec
    have s: "success nr" and r: "notesDispensed r = nd ++ notesDispensed nr"
      by (auto split: if_splits)
    from Cons.prems(1) have d: "distinct (map noteValue (n # ns))" by simp
    have w: "weightedSum (notesDispensed nr) = rem"
      using Cons.IH [OF d rec s] .
    have sub: "dom (notesDispensed nr) \<subseteq> noteValue ` set (n # ns)"
      using dispense_dom [OF rec] .
    have fin: "finite (dom (notesDispensed nr))"
      using sub by (rule finite_subset) simp
    have fin': "finite (dom nd)"
      using allocate_dom [OF al] by (rule finite_subset) simp
    have disj: "dom nd \<inter> dom (notesDispensed nr) = {}"
      using allocate_dom [OF al] sub Cons.prems(1) by auto
    show ?thesis
      using weightedSum_add [OF fin' fin disj] r w rm ws by simp
  qed
qed

section \<open>Failing and successful calls\<close>

lemma dispense_failure_restores:
  "dispense this others amount = (r, ch) \<Longrightarrow> \<not> success r \<Longrightarrow> ch = this # others"
proof (induction others arbitrary: this amount r ch)
  case Nil
  obtain nd rem cnt where al: "allocate this False amount = (nd, rem, cnt)"
    by (cases "allocate this False amount") auto
  from Nil al have "ch = [this\<lparr>noteCount := cnt + orZero (nd (noteValue this))\<rparr>]"
    by (auto split: if_splits)
  with allocate_rollback [OF al] show ?case by simp
next
  case (Cons n ns)
  obtain nd rem cnt where al: "allocate this True amount = (nd, rem, cnt)"
    by (cases "allocate this True amount") auto
  obtain nr ch' where rec: "dispense n ns rem = (nr, ch')"
    by (cases "dispense n ns rem") auto
  note rb = allocate_rollback [OF al]
  show ?case
  proof (cases "0 < rem")
    case True
    with Cons.prems al rec
    have f: "\<not> success nr"
      and c: "ch = this\<lparr>noteCount := cnt + orZero (nd (noteValue this))\<rparr> # ch'"
      by (auto split: if_splits)
    from Cons.IH [OF rec f] c rb show ?thesis by simp
  next
    case False
    with Cons.prems al
    have "ch = this\<lparr>noteCount := cnt + orZero (nd (noteValue this))\<rparr> # n # ns"
      by (auto split: if_splits)
    with rb show ?thesis by simp
  qed
qed

lemma dispense_failure_notes:
  "dispense this others amount = (r, ch) \<Longrightarrow> \<not> success r \<Longrightarrow>
   notesDispensed r = fst (allocate this (others \<noteq> []) amount)"
  by (cases others) (auto split: prod.splits if_splits)

lemma debit_absent: "noteValue h \<notin> dom m \<Longrightarrow> debit m h = h"
  by (simp add: debit_def orZero_def domIff)

lemma map_debit_absent:
  "noteValue ` set hs \<inter> dom m = {} \<Longrightarrow> map (debit m) hs = hs"
  by (induction hs) (auto simp: debit_absent)

lemma map_debit_cong:
  "\<forall>h\<in>set hs. m (noteValue h) = n (noteValue h) \<Longrightarrow> map (debit m) hs = map (debit n) hs"
  by (simp add: debit_def)

lemma dispense_success_debits:
  "distinct (map noteValue (this # others)) \<Longrightarrow>
   dispense this others amount = (r, ch) \<Longrightarrow> success r \<Longrightarrow>
   ch = map (debit (notesDispensed r)) (this # others)"
proof (induction others arbitrary: this amount r ch)
  case Nil
  obtain nd rem cnt where al: "allocate this False amount = (nd, rem, cnt)"
    by (cases "allocate this False amount") auto
  from Nil al have "notesDispensed r = nd" "ch = [this\<lparr>noteCount := cnt\<rparr>]"
    by (auto split: if_splits)
  with allocate_count [OF al] show ?case by (simp add: debit_def)
next
  case (Cons n ns)
  obtain nd rem cnt where al: "allocate this True amount = (nd, rem, cnt)"
    by (cases "allocate this True amount") auto
  note cn = allocate_count [OF al] and dm = allocate_dom [OF al]
  from Cons.prems(1) have notin: "noteValue this \<notin> noteValue ` set (n # ns)"
    and d: "distinct (map noteValue (n # ns))" by auto
  show ?case
  proof (cases "rem = 0")
    case True
    with Cons.prems al
    have r: "notesDispensed r = nd" and c: "ch = this\<lparr>noteCount := cnt\<rparr> # n # ns"
      by auto
    have "noteValue ` set (n # ns) \<inter> dom nd = {}"
    proof -
      have "k \<notin> dom nd" if "k \<in> noteValue ` set (n # ns)" for k
      proof
        assume "k \<in> dom nd"
        with dm have "k = noteValue this" by auto
        with that notin show False by simp
      qed
      then show ?thesis by blast
    qed
    from map_debit_absent [OF this]
    have "map (debit nd) (n # ns) = n # ns" .
    moreover have "debit nd this = this\<lparr>noteCount := cnt\<rparr>"
      using cn by (simp add: debit_def)
    ultimately show ?thesis using r c by simp
  next
    case False
    obtain nr ch' where rec: "dispense n ns rem = (nr, ch')"
      by (cases "dispense n ns rem") auto
    from False Cons.prems al rec
    have s: "success nr" and r: "notesDispensed r = nd ++ notesDispensed nr"
      and c: "ch = this\<lparr>noteCount := cnt\<rparr> # ch'"
      by (auto split: if_splits)
    have ih: "ch' = map (debit (notesDispensed nr)) (n # ns)"
      using Cons.IH [OF d rec s] .
    have sub: "dom (notesDispensed nr) \<subseteq> noteValue ` set (n # ns)"
      using dispense_dom [OF rec] .
    have own: "(nd ++ notesDispensed nr) (noteValue this) = nd (noteValue this)"
    proof -
      from sub notin have "noteValue this \<notin> dom (notesDispensed nr)" by blast
      then show ?thesis by (simp add: map_add_dom_app_simps)
    qed
    have rest: "\<forall>h\<in>set (n # ns).
        (nd ++ notesDispensed nr) (noteValue h) = notesDispensed nr (noteValue h)"
    proof
      fix h assume "h \<in> set (n # ns)"
      with notin have "noteValue h \<noteq> noteValue this" by (metis imageI)
      with dm have "noteValue h \<notin> dom nd" by blast
      then have "nd (noteValue h) = None" by (simp add: domIff)
      then show "(nd ++ notesDispensed nr) (noteValue h) = notesDispensed nr (noteValue h)"
        by (simp add: map_add_def split: option.splits)
    qed
    have "debit (nd ++ notesDispensed nr) this = this\<lparr>noteCount := cnt\<rparr>"
      using own cn by (simp add: debit_def)
    moreover have "map (debit (nd ++ notesDispensed nr)) (n # ns) = ch'"
      using map_debit_cong [OF rest] ih by simp
    ultimately show ?thesis using r c by simp
  qed
qed

section \<open>Stock bounds, divisibility and a sufficient condition for success\<close>

lemma dispense_counts_nonneg:
  "\<forall>h\<in>set (this # others). 0 \<le> noteCount h \<Longrightarrow>
   dispense this others amount = (r, ch) \<Longrightarrow> \<forall>h\<in>set ch. 0 \<le> noteCount h"
proof (induction others arbitrary: this amount r ch)
  case Nil
  obtain nd rem cnt where al: "allocate this False amount = (nd, rem, cnt)"
    by (cases "allocate this False amount") auto
  from Nil.prems have c0: "0 \<le> noteCount this" by simp
  note b = allocate_bounds [OF c0 al] and rb = allocate_rollback [OF al]
  from Nil.prems(2) al have "ch = [this\<lparr>noteCount := cnt\<rparr>] \<or> ch = [this]"
    by (auto simp: rb split: if_splits)
  with b c0 show ?case by auto
next
  case (Cons n ns)
  obtain nd rem cnt where al: "allocate this True amount = (nd, rem, cnt)"
    by (cases "allocate this True amount") auto
  from Cons.prems have c0: "0 \<le> noteCount this"
    and rest: "\<forall>h\<in>set (n # ns). 0 \<le> noteCount h" by simp_all
  note b = allocate_bounds [OF c0 al]
  show ?case
  proof (cases "success r")
    case False
    with dispense_failure_restores [OF Cons.prems(2)] Cons.prems(1) show ?thesis by simp
  next
    case True
    obtain nr ch' where rec: "dispense n ns rem = (nr, ch')"
      by (cases "dispense n ns rem") auto
    from True Cons.prems(2) al rec
    have "ch = this\<lparr>noteCount := cnt\<rparr> # n # ns \<or> ch = this\<lparr>noteCount := cnt\<rparr> # ch'"
      by (auto split: if_splits)
    with Cons.IH [OF rest rec] rest b show ?thesis by auto
  qed
qed

lemma dispense_notes_within_stock:
  assumes "distinct (map noteValue (this # others))"
    and "\<forall>h\<in>set (this # others). 0 \<le> noteCount h"
    and "dispense this others amount = (r, ch)"
    and "h \<in> set (this # others)"
  shows "orZero (notesDispensed r (noteValue h)) \<le> noteCount h"
proof (cases "success r")
  case True
  from dispense_success_debits [OF assms(1,3) True]
  have "ch = map (debit (notesDispensed r)) (this # others)" .
  moreover from assms(4)
  have "debit (notesDispensed r) h \<in> set (map (debit (notesDispensed r)) (this # others))"
    by (simp only: set_map) (rule imageI)
  ultimately have "debit (notesDispensed r) h \<in> set ch" by simp
  with dispense_counts_nonneg [OF assms(2,3)]
  have "0 \<le> noteCount (debit (notesDispensed r) h)" by blast
  then show ?thesis by (simp add: debit_def)
next
  case False
  obtain nd rem cnt where al: "allocate this (others \<noteq> []) amount = (nd, rem, cnt)"
    by (cases "allocate this (others \<noteq> []) amount") auto
  with dispense_failure_notes [OF assms(3) False] have r: "notesDispensed r = nd" by simp
  from assms(2) have c0: "0 \<le> noteCount this" by simp
  show ?thesis
  proof (cases "h = this")
    case True
    with allocate_bounds [OF c0 al] r show ?thesis by simp
  next
    case False
    with assms(1,4) have "noteValue h \<noteq> noteValue this" by (metis distinct.simps(2) imageI list.simps(9) set_ConsD set_map)
    with allocate_dom [OF al] have "noteValue h \<notin> dom nd" by blast
    then have "nd (noteValue h) = None" by (simp add: domIff)
    moreover from assms(2,4) have "0 \<le> noteCount h" by blast
    ultimately show ?thesis using r by (simp add: orZero_def)
  qed
qed

lemma dispense_success_dvd:
  "\<forall>h\<in>set (this # others). d dvd noteValue h \<Longrightarrow>
   dispense this others amount = (r, ch) \<Longrightarrow> success r \<Longrightarrow> d dvd amount"
proof (induction others arbitrary: this amount r ch)
  case Nil
  obtain nd rem cnt where al: "allocate this False amount = (nd, rem, cnt)"
    by (cases "allocate this False amount") auto
  from Nil al have "rem = 0" by (auto split: if_splits)
  with allocate_remaining [OF al]
  have "amount = noteValue this * orZero (nd (noteValue this))" by simp
  with Nil.prems(1) show ?case by simp
next
  case (Cons n ns)
  obtain nd rem cnt where al: "allocate this True amount = (nd, rem, cnt)"
    by (cases "allocate this True amount") auto
  obtain nr ch' where rec: "dispense n ns rem = (nr, ch')"
    by (cases "dispense n ns rem") auto
  from Cons.prems(1) have dv: "d dvd noteValue this"
    and rest: "\<forall>h\<in>set (n # ns). d dvd noteValue h" by simp_all
  from Cons.prems(2,3) al rec have "rem = 0 \<or> success nr"
    by (auto split: if_splits)
  with Cons.IH [OF rest rec] have "d dvd rem" by auto
  moreover from allocate_remaining [OF al]
  have "amount = rem + noteValue this * orZero (nd (noteValue this))" by simp
  ultimately show ?case using dv by simp
qed

lemma dispense_ample_last:
  assumes "\<forall>h\<in>set (this # others). 0 < noteValue h \<and> 0 \<le> noteCount h \<and>
              noteValue (last (this # others)) dvd noteValue h"
    and "noteValue (last (this # others)) dvd amount"
    and "0 \<le> amount"
    and "amount < noteValue (last (this # others)) * noteCount (last (this # others))"
  shows "success (fst (dispense this others amount))"
  using assms
proof (induction others arbitrary: this amount)
  case Nil
  let ?v = "noteValue this"
  from Nil have v: "0 < ?v" and dv: "?v dvd amount" and lt: "amount < ?v * noteCount this"
    by simp_all
  from dv have eq: "?v * (amount div ?v) = amount" by simp
  with lt have "?v * (amount div ?v) < ?v * noteCount this" by simp
  with v have "amount div ?v < noteCount this"
    by (simp only: mult_less_cancel_left_pos)
  with eq show ?case by (simp add: allocate_def Let_def)
next
  case (Cons n ns)
  let ?d = "noteValue (last (n # ns))"
  have last_eq: "last (this # n # ns) = last (n # ns)" by simp
  obtain nd rem cnt where al: "allocate this True amount = (nd, rem, cnt)"
    by (cases "allocate this True amount") auto
  from Cons.prems(1) have v: "0 < noteValue this" and c: "0 \<le> noteCount this"
    and dv: "?d dvd noteValue this"
    and rest: "\<forall>h\<in>set (n # ns). 0 < noteValue h \<and> 0 \<le> noteCount h \<and> ?d dvd noteValue h"
    by (simp_all only: last_eq list.set ball_simps insert_iff) auto
  from Cons.prems(2) have da: "?d dvd amount" by (simp only: last_eq)
  from Cons.prems(4) have lt: "amount < ?d * noteCount (last (n # ns))" by (simp only: last_eq)
  have rem: "0 \<le> rem \<and> rem \<le> amount \<and> ?d dvd rem"
    using al
  proof (cases rule: allocate_cases)
    case A
    have "rem = amount mod noteValue this"
      using A(3) by (simp add: minus_mult_div_eq_mod)
    moreover have "amount mod noteValue this \<le> amount"
      using Cons.prems(3) v by (simp add: zmod_le_nonneg_dividend)
    moreover have "?d dvd amount mod noteValue this"
      using da dv by (simp add: dvd_mod)
    ultimately show ?thesis using v by simp
  next
    case B
    from B(1) have "noteCount this + 1 \<le> amount div noteValue this" by simp
    with v have "noteValue this * (noteCount this + 1) \<le>
        noteValue this * (amount div noteValue this)"
      by (simp add: mult_left_mono)
    also have "\<dots> \<le> amount"
      using mult_div_mod_eq [of "noteValue this" amount] pos_mod_sign [OF v, of amount]
      by linarith
    finally have "noteValue this * noteCount this < amount"
      using v by (simp add: distrib_left)
    moreover have "0 \<le> noteValue this * noteCount this" using v c by simp
    ultimately show ?thesis using B(4) da dv by simp
  next
    case C
    with Cons.prems(3) da show ?thesis by simp
  qed
  show ?case
  proof (cases "rem = 0")
    case True
    with al show ?thesis by simp
  next
    case False
    with rem have pos: "0 < rem" by simp
    from rem lt have "rem < ?d * noteCount (last (n # ns))" by simp
    with Cons.IH [OF rest] rem have s: "success (fst (dispense n ns rem))" by simp
    obtain nr ch' where rec: "dispense n ns rem = (nr, ch')"
      by (cases "dispense n ns rem") auto
    with s have "success nr" by simp
    with al pos rec show ?thesis by simp
  qed
qed

lemma totalValue_Cons:
  "totalValue (h # hs) = noteValue h * noteCount h + totalValue hs"
  by (simp add: totalValue_def)

lemma totalValue_nonneg:
  "\<forall>h\<in>set hs. 0 < noteValue h \<and> 0 \<le> noteCount h \<Longrightarrow> 0 \<le> totalValue hs"
  by (induction hs) (simp_all add: totalValue_def)

lemma exactHit_prefix:
  "exactHit chain amount \<longleftrightarrow>
     (\<exists>k<length chain.
        (amount - totalValue (take k chain)) div noteValue (chain ! k) = noteCount (chain ! k))"
proof (induction chain arbitrary: amount)
  case Nil
  show ?case by simp
next
  case (Cons h hs)
  have "(\<exists>k<length (h # hs).
          (amount - totalValue (take k (h # hs))) div noteValue ((h # hs) ! k) =
            noteCount ((h # hs) ! k)) \<longleftrightarrow>
        (amount div noteValue h = noteCount h \<or>
         (\<exists>j<length hs.
            (amount - noteValue h * noteCount h - totalValue (take j hs)) div noteValue (hs ! j) =
              noteCount (hs ! j)))"
    (is "?L \<longleftrightarrow> ?R")
  proof
    assume ?L
    then obtain k where k: "k < length (h # hs)"
      "(amount - totalValue (take k (h # hs))) div noteValue ((h # hs) ! k) =
         noteCount ((h # hs) ! k)"
      by blast
    show ?R
    proof (cases k)
      case 0
      with k show ?thesis by (simp add: totalValue_def)
    next
      case (Suc j)
      with k have "j < length hs"
        "(amount - noteValue h * noteCount h - totalValue (take j hs)) div noteValue (hs ! j) =
           noteCount (hs ! j)"
        by (simp_all add: totalValue_Cons algebra_simps)
      then show ?thesis by blast
    qed
  next
    assume ?R
    then show ?L
    proof
      assume "amount div noteValue h = noteCount h"
      then have "(amount - totalValue (take 0 (h # hs))) div noteValue ((h # hs) ! 0) =
          noteCount ((h # hs) ! 0)"
        by (simp add: totalValue_def)
      then show ?L by blast
    next
      assume "\<exists>j<length hs.
          (amount - noteValue h * noteCount h - totalValue (take j hs)) div noteValue (hs ! j) =
            noteCount (hs ! j)"
      then obtain j where j: "j < length hs"
        "(amount - noteValue h * noteCount h - totalValue (take j hs)) div noteValue (hs ! j) =
           noteCount (hs ! j)"
        by blast
      then have "Suc j < length (h # hs)"
        "(amount - totalValue (take (Suc j) (h # hs))) div noteValue ((h # hs) ! Suc j) =
           noteCount ((h # hs) ! Suc j)"
        by (simp_all add: totalValue_Cons algebra_simps)
      then show ?L by blast
    qed
  qed
  with Cons.IH [of "amount - noteValue h * noteCount h"] show ?case by simp
qed

lemma div_less_stock:
  fixes v c a :: int
  assumes "0 < v" "a < v * c"
  shows "a div v < c"
proof -
  have "v * (a div v) \<le> a"
    using mult_div_mod_eq [of v a] pos_mod_sign [OF assms(1), of a] by linarith
  with assms(2) have "v * (a div v) < v * c" by simp
  with assms(1) show ?thesis by (simp only: mult_less_cancel_left_pos)
qed

lemma exactHit_negative:
  "\<forall>h\<in>set chain. 0 < noteValue h \<and> 0 \<le> noteCount h \<Longrightarrow> amount < 0 \<Longrightarrow>
   \<not> exactHit chain amount"
proof (induction chain arbitrary: amount)
  case Nil
  show ?case by simp
next
  case (Cons h hs)
  from Cons.prems have v: "0 < noteValue h" and c: "0 \<le> noteCount h"
    and rest: "\<forall>h\<in>set hs. 0 < noteValue h \<and> 0 \<le> noteCount h" by simp_all
  from Cons.prems(2) have "amount < noteValue h * 0" by simp
  from div_less_stock [OF v this] have "amount div noteValue h < 0" .
  with c have "amount div noteValue h \<noteq> noteCount h" by simp
  moreover from v c have "0 \<le> noteValue h * noteCount h" by simp
  with Cons.prems(2) have "amount - noteValue h * noteCount h < 0" by simp
  from Cons.IH [OF rest this] have "\<not> exactHit hs (amount - noteValue h * noteCount h)" .
  ultimately show ?case by simp
qed

lemma exactHit_below_head:
  assumes "\<forall>h\<in>set (this # others). 0 < noteValue h \<and> 0 \<le> noteCount h"
    and "amount < noteValue this * noteCount this"
  shows "\<not> exactHit (this # others) amount"
proof -
  from assms(1) have v: "0 < noteValue this"
    and rest: "\<forall>h\<in>set others. 0 < noteValue h \<and> 0 \<le> noteCount h" by simp_all
  from div_less_stock [OF v assms(2)] have "amount div noteValue this \<noteq> noteCount this"
    by simp
  moreover from assms(2) have "amount - noteValue this * noteCount this < 0" by simp
  from exactHit_negative [OF rest this]
  have "\<not> exactHit others (amount - noteValue this * noteCount this)" .
  ultimately show ?thesis by simp
qed


lemma dispense_no_exact_hit:
  assumes "\<forall>h\<in>set (this # others). 0 < noteValue h \<and> 0 \<le> noteCount h \<and>
              noteValue (last (this # others)) dvd noteValue h"
    and "successively (\<lambda>h n. noteValue h \<le> noteValue n * noteCount n) (this # others)"
    and "noteValue (last (this # others)) dvd amount"
    and "0 \<le> amount"
    and "amount \<le> totalValue (this # others)"
    and "\<not> exactHit (this # others) amount"
  shows "success (fst (dispense this others amount))"
  using assms
proof (induction others arbitrary: this amount)
  case Nil
  let ?v = "noteValue this"
  from Nil.prems have v: "0 < ?v" and dv: "?v dvd amount"
    and le: "amount \<le> ?v * noteCount this" and ne: "amount div ?v \<noteq> noteCount this"
    by (simp_all add: totalValue_def)
  from dv have eq: "?v * (amount div ?v) = amount" by simp
  with le have "?v * (amount div ?v) \<le> ?v * noteCount this" by simp
  with v have "amount div ?v \<le> noteCount this"
    by (simp only: mult_le_cancel_left_pos)
  with ne have "amount div ?v < noteCount this" by simp
  with eq show ?case by (simp add: allocate_def Let_def)
next
  case (Cons n ns)
  let ?d = "noteValue (last (n # ns))"
  have last_eq: "last (this # n # ns) = last (n # ns)" by simp
  obtain nd rem cnt where al: "allocate this True amount = (nd, rem, cnt)"
    by (cases "allocate this True amount") auto
  from Cons.prems(1) have v: "0 < noteValue this" and c: "0 \<le> noteCount this"
    and dv: "?d dvd noteValue this"
    and rest: "\<forall>h\<in>set (n # ns). 0 < noteValue h \<and> 0 \<le> noteCount h \<and> ?d dvd noteValue h"
    by (simp_all only: last_eq list.set ball_simps insert_iff) auto
  from rest have rest': "\<forall>h\<in>set (n # ns). 0 < noteValue h \<and> 0 \<le> noteCount h" by blast
  from Cons.prems(2) have cover: "noteValue this \<le> noteValue n * noteCount n"
    and succ: "successively (\<lambda>h n. noteValue h \<le> noteValue n * noteCount n) (n # ns)"
    by simp_all
  from Cons.prems(3) have da: "?d dvd amount" by (simp only: last_eq)
  from Cons.prems(5) have le: "amount \<le> noteValue this * noteCount this + totalValue (n # ns)"
    by (simp only: totalValue_Cons)
  from Cons.prems(6) have ne: "amount div noteValue this \<noteq> noteCount this"
    and nh: "\<not> exactHit (n # ns) (amount - noteValue this * noteCount this)"
    by simp_all
  have tail_nonneg: "0 \<le> totalValue ns"
    using rest' by (intro totalValue_nonneg) simp
  have next_le: "noteValue n * noteCount n \<le> totalValue (n # ns)"
    using tail_nonneg by (simp only: totalValue_Cons)
  have rem: "0 \<le> rem \<and> ?d dvd rem \<and> rem \<le> totalValue (n # ns) \<and> \<not> exactHit (n # ns) rem"
    using al
  proof (cases rule: allocate_cases)
    case A
    have r: "rem = amount mod noteValue this"
      using A(3) by (simp add: minus_mult_div_eq_mod)
    have lt: "rem < noteValue n * noteCount n"
      using r cover pos_mod_bound [OF v, of amount] by linarith
    have "0 \<le> rem" using r pos_mod_sign [OF v, of amount] by linarith
    moreover have "?d dvd rem" using r da dv by (simp add: dvd_mod)
    moreover have "rem \<le> totalValue (n # ns)" using lt next_le by simp
    moreover have "\<not> exactHit (n # ns) rem"
      using exactHit_below_head [OF rest' lt] .
    ultimately show ?thesis by simp
  next
    case B
    from B(1) have "noteCount this + 1 \<le> amount div noteValue this" by simp
    with v have "noteValue this * (noteCount this + 1) \<le>
        noteValue this * (amount div noteValue this)"
      by (simp add: mult_left_mono)
    also have "\<dots> \<le> amount"
      using mult_div_mod_eq [of "noteValue this" amount] pos_mod_sign [OF v, of amount]
      by linarith
    finally have "noteValue this * noteCount this < amount"
      using v by (simp add: distrib_left)
    with B(4) le nh da dv show ?thesis by simp
  next
    case C
    with ne show ?thesis by simp
  qed
  show ?case
  proof (cases "rem = 0")
    case True
    with al show ?thesis by simp
  next
    case False
    with rem have pos: "0 < rem" by simp
    from rem have "?d dvd rem" "0 \<le> rem" "rem \<le> totalValue (n # ns)"
      "\<not> exactHit (n # ns) rem" by simp_all
    from Cons.IH [OF rest succ this] have s: "success (fst (dispense n ns rem))" .
    obtain nr ch' where rec: "dispense n ns rem = (nr, ch')"
      by (cases "dispense n ns rem") auto
    with s have "success nr" by simp
    with al pos rec show ?thesis by simp
  qed
qed

lemma dispense_below_head_stock:
  assumes "\<forall>h\<in>set (this # others). 0 < noteValue h \<and> 0 \<le> noteCount h \<and>
              noteValue (last (this # others)) dvd noteValue h"
    and "successively (\<lambda>h n. noteValue h \<le> noteValue n * noteCount n) (this # others)"
    and "noteValue (last (this # others)) dvd amount"
    and "0 \<le> amount"
    and "amount < noteValue this * noteCount this"
  shows "success (fst (dispense this others amount))"
proof -
  from assms(1) have nn: "\<forall>h\<in>set (this # others). 0 < noteValue h \<and> 0 \<le> noteCount h"
    by blast
  then have "0 \<le> totalValue others"
    by (intro totalValue_nonneg) simp
  with assms(5) have "amount \<le> totalValue (this # others)"
    by (simp only: totalValue_Cons)
  moreover have "\<not> exactHit (this # others) amount"
    using exactHit_below_head [OF nn assms(5)] .
  ultimately show ?thesis
    using dispense_no_exact_hit [OF assms(1,2,3,4)] by blast
qed

section \<open>The entry point\<close>

lemma MainHandler_dispense_success:
  "success (fst (MainHandler_dispense head others amount)) \<Longrightarrow>
   MainHandler_dispense head others amount = dispense head others amount \<and> 100 \<le> amount"
  by (auto simp: MainHandler_dispense_def split: if_splits prod.splits)

lemma MainHandler_dispense_chain:
  "snd (MainHandler_dispense head others amount) =
     (if amount \<le> 0 \<or> amount < 100 then head # others
      else snd (dispense head others amount))"
  by (simp add: MainHandler_dispense_def split: prod.splits)

lemma MainHandler_dispense_flag:
  "success (fst (MainHandler_dispense head others amount)) \<longleftrightarrow>
     100 \<le> amount \<and> success (fst (dispense head others amount))"
  by (auto simp: MainHandler_dispense_def split: prod.splits)

section \<open>Runs of concrete chains\<close>

lemma example_2700:
  "dispense (ThousandWorthHandler 10) [FiveHundredWorthHandler 10, HundredWorthHandler 10] 2700
   = (\<lparr>success = True, notesDispensed = [1000 \<mapsto> 2, 500 \<mapsto> 1, 100 \<mapsto> 2]\<rparr>,
      [ThousandWorthHandler 8, FiveHundredWorthHandler 9, HundredWorthHandler 8])"
  by (simp add: handler_defs allocate_def orZero_def)

lemma example_1300:
  "dispense (ThousandWorthHandler 10) [FiveHundredWorthHandler 1, HundredWorthHandler 2] 1300
   = (\<lparr>success = False, notesDispensed = [1000 \<mapsto> 1]\<rparr>,
      [ThousandWorthHandler 10, FiveHundredWorthHandler 1, HundredWorthHandler 2])"
  by (simp add: handler_defs allocate_def orZero_def)

lemma example_10000:
  "dispense (ThousandWorthHandler 10) [FiveHundredWorthHandler 10, HundredWorthHandler 10] 10000
   = (\<lparr>success = False, notesDispensed = Map.empty\<rparr>,
      [ThousandWorthHandler 10, FiveHundredWorthHandler 10, HundredWorthHandler 10])"
  by (simp add: handler_defs allocate_def orZero_def)

lemma example_ascending_2700:
  "dispense (HundredWorthHandler 10) [FiveHundredWorthHandler 10, ThousandWorthHandler 10] 2700
   = (\<lparr>success = False, notesDispensed = [100 \<mapsto> 10]\<rparr>,
      [HundredWorthHandler 10, FiveHundredWorthHandler 10, ThousandWorthHandler 10])"
  by (simp add: handler_defs allocate_def orZero_def)

lemma example_500_200:
  "dispense \<lparr>noteValue = 500, noteCount = 10\<rparr> [\<lparr>noteValue = 200, noteCount = 10\<rparr>] 500
   = (\<lparr>success = True, notesDispensed = [500 \<mapsto> 1]\<rparr>,
      [\<lparr>noteValue = 500, noteCount = 9\<rparr>, \<lparr>noteValue = 200, noteCount = 10\<rparr>])"
  by (simp add: allocate_def orZero_def)

lemma example_12700:
  "dispense (ThousandWorthHandler 10) [FiveHundredWorthHandler 10, HundredWorthHandler 10] 12700
   = (\<lparr>success = True, notesDispensed = [1000 \<mapsto> 10, 500 \<mapsto> 5, 100 \<mapsto> 2]\<rparr>,
      [ThousandWorthHandler 0, FiveHundredWorthHandler 5, HundredWorthHandler 8])"
  by (simp add: handler_defs allocate_def orZero_def)

section \<open>Claims\<close>

text \<open>
  C1. For every chain of handlers with distinct positive note values and every requested
  amount: if a dispense call returns \<open>success = true\<close>, the sum over the entries of
  the returned \<open>notesDispensed\<close> of note value times count is the requested amount.
  Stated for a call on the head handler and for a call through \<open>MainHandler\<close>.
\<close>

theorem C1_weighted_sum_is_amount:
  assumes "distinct (map noteValue (head # others))"
    and "\<forall>h\<in>set (head # others). 0 < noteValue h"
  shows "(success (fst (dispense head others amount)) \<longrightarrow>
            weightedSum (notesDispensed (fst (dispense head others amount))) = amount) \<and>
         (success (fst (MainHandler_dispense head others amount)) \<longrightarrow>
            weightedSum (notesDispensed (fst (MainHandler_dispense head others amount))) = amount)"
proof -
  have handler: "weightedSum (notesDispensed (fst (dispense head others amount))) = amount"
    if "success (fst (dispense head others amount))"
  proof -
    have "dispense head others amount =
        (fst (dispense head others amount), snd (dispense head others amount))"
      by simp
    from dispense_weightedSum [OF assms(1) this that] show ?thesis .
  qed
  show ?thesis
  proof (intro conjI impI)
    assume "success (fst (dispense head others amount))"
    then show "weightedSum (notesDispensed (fst (dispense head others amount))) = amount"
      by (rule handler)
  next
    assume s: "success (fst (MainHandler_dispense head others amount))"
    from MainHandler_dispense_success [OF s] s handler
    show "weightedSum (notesDispensed (fst (MainHandler_dispense head others amount))) = amount"
      by simp
  qed
qed

theorem C1_weighted_sum_is_amount_witness:
  "distinct (map noteValue [ThousandWorthHandler 10, FiveHundredWorthHandler 10, HundredWorthHandler 10]) \<and>
   list_all (\<lambda>h. 0 < noteValue h)
     [ThousandWorthHandler 10, FiveHundredWorthHandler 10, HundredWorthHandler 10] \<and>
   success (fst (MainHandler_dispense (ThousandWorthHandler 10)
      [FiveHundredWorthHandler 10, HundredWorthHandler 10] 2700)) \<and>
   weightedSum (notesDispensed (fst (MainHandler_dispense (ThousandWorthHandler 10)
      [FiveHundredWorthHandler 10, HundredWorthHandler 10] 2700))) = 2700"
proof -
  have d: "distinct (map noteValue
      (ThousandWorthHandler 10 # [FiveHundredWorthHandler 10, HundredWorthHandler 10]))"
    by (simp add: handler_defs)
  have p: "\<forall>h\<in>set (ThousandWorthHandler 10 # [FiveHundredWorthHandler 10, HundredWorthHandler 10]).
      0 < noteValue h"
    by (simp add: handler_defs)
  have s: "success (fst (MainHandler_dispense (ThousandWorthHandler 10)
      [FiveHundredWorthHandler 10, HundredWorthHandler 10] 2700))"
    unfolding MainHandler_dispense_def example_2700 by simp
  from C1_weighted_sum_is_amount [OF d p, of 2700] d p s show ?thesis
    by (simp add: list_all_iff)
qed

text \<open>
  C2. If a dispense call returns \<open>success = false\<close>, every handler of the chain has
  the \<open>noteCount\<close> it had before the call (the whole chain is returned unchanged);
  hence a second call with the same amount starts from the same chain, gives the same
  result and leaves the same stock. Stated for a call on the head handler and for a call
  through \<open>MainHandler\<close>; distinctness of the note values is not needed.
\<close>

theorem C2_failed_dispense_keeps_stock:
  assumes "\<forall>h\<in>set (head # others). 0 < noteValue h"
  shows "(\<not> success (fst (dispense head others amount)) \<longrightarrow>
            snd (dispense head others amount) = head # others) \<and>
         (\<not> success (fst (MainHandler_dispense head others amount)) \<longrightarrow>
            snd (MainHandler_dispense head others amount) = head # others \<and>
            (\<forall>head' others'.
               snd (MainHandler_dispense head others amount) = head' # others' \<longrightarrow>
               MainHandler_dispense head' others' amount =
                 MainHandler_dispense head others amount))"
proof -
  have handler: "snd (dispense head others amount) = head # others"
    if "\<not> success (fst (dispense head others amount))"
  proof -
    have "dispense head others amount =
        (fst (dispense head others amount), snd (dispense head others amount))"
      by simp
    from dispense_failure_restores [OF this that] show ?thesis .
  qed
  have main: "snd (MainHandler_dispense head others amount) = head # others"
    if "\<not> success (fst (MainHandler_dispense head others amount))"
    using that handler
    by (auto simp: MainHandler_dispense_chain MainHandler_dispense_flag)
  show ?thesis
  proof (intro conjI impI allI)
    assume "\<not> success (fst (dispense head others amount))"
    then show "snd (dispense head others amount) = head # others" by (rule handler)
  next
    assume "\<not> success (fst (MainHandler_dispense head others amount))"
    then show "snd (MainHandler_dispense head others amount) = head # others" by (rule main)
  next
    fix head' others'
    assume "\<not> success (fst (MainHandler_dispense head others amount))"
      and "snd (MainHandler_dispense head others amount) = head' # others'"
    with main have "head' = head" "others' = others" by simp_all
    then show "MainHandler_dispense head' others' amount =
        MainHandler_dispense head others amount" by simp
  qed
qed

theorem C2_failed_dispense_keeps_stock_witness:
  "list_all (\<lambda>h. 0 < noteValue h)
     [ThousandWorthHandler 10, FiveHundredWorthHandler 1, HundredWorthHandler 2] \<and>
   \<not> success (fst (MainHandler_dispense (ThousandWorthHandler 10)
      [FiveHundredWorthHandler 1, HundredWorthHandler 2] 1300)) \<and>
   snd (MainHandler_dispense (ThousandWorthHandler 10)
      [FiveHundredWorthHandler 1, HundredWorthHandler 2] 1300) =
     [ThousandWorthHandler 10, FiveHundredWorthHandler 1, HundredWorthHandler 2]"
proof -
  have p: "\<forall>h\<in>set (ThousandWorthHandler 10 # [FiveHundredWorthHandler 1, HundredWorthHandler 2]).
      0 < noteValue h"
    by (simp add: handler_defs)
  have f: "\<not> success (fst (MainHandler_dispense (ThousandWorthHandler 10)
      [FiveHundredWorthHandler 1, HundredWorthHandler 2] 1300))"
    unfolding MainHandler_dispense_def example_1300 by simp
  from C2_failed_dispense_keeps_stock [OF p, of 1300] f
  have "snd (MainHandler_dispense (ThousandWorthHandler 10)
      [FiveHundredWorthHandler 1, HundredWorthHandler 2] 1300) =
     [ThousandWorthHandler 10, FiveHundredWorthHandler 1, HundredWorthHandler 2]"
    by blast
  moreover have "list_all (\<lambda>h. 0 < noteValue h)
     [ThousandWorthHandler 10, FiveHundredWorthHandler 1, HundredWorthHandler 2]"
    using p by (simp add: list_all_iff)
  ultimately show ?thesis using f by (intro conjI)
qed

text \<open>
  C3, as stated: for a chain whose note values are multiples of 100 in descending order,
  every amount that is a multiple of 100, at least 100 and at most the total value of the
  stock is dispensed. This fails: with ten notes of 1000, one of 500 and two of 100 the
  amount 1300 is within the total of 10700, and after one note of 1000 the remaining 300
  cannot be paid from one note of 500 and two of 100.
\<close>

theorem C3_total_stock_counterexample:
  "map noteValue [ThousandWorthHandler 10, FiveHundredWorthHandler 1, HundredWorthHandler 2]
     = [10 * 100, 5 * 100, 1 * 100] \<and>
   (1300::int) = 13 * 100 \<and> (100::int) \<le> 1300 \<and>
   (1300::int) \<le>
     totalValue [ThousandWorthHandler 10, FiveHundredWorthHandler 1, HundredWorthHandler 2] \<and>
   \<not> success (fst (MainHandler_dispense (ThousandWorthHandler 10)
      [FiveHundredWorthHandler 1, HundredWorthHandler 2] 1300))"
  unfolding MainHandler_dispense_def example_1300
  by (simp add: handler_defs totalValue_def)

text \<open>
  C3, amended: for a chain of handlers with positive note values and non-negative counts in
  which the note value of the last handler divides every note value and every note value
  is at most the value of the next handler's stock, every amount that is a multiple of the
  last note value, at least 100 and at most the total value of the stock is dispensed
  successfully, provided that for no handler the amount left once the stock of all
  handlers before it is taken asks for exactly the notes it holds
  (\<open>requiredNotes = noteCount\<close>, the case treated under C4). For ten notes each of 1000,
  500 and 100 these are the amounts 100 to 9900, 11000 to 14900 and 15500 to 15900.
\<close>

theorem C3_covered_amount_succeeds:
  assumes "\<forall>h\<in>set (head # others). 0 < noteValue h \<and> 0 \<le> noteCount h \<and>
              noteValue (last (head # others)) dvd noteValue h"
    and "successively (\<lambda>h n. noteValue h \<le> noteValue n * noteCount n) (head # others)"
    and "noteValue (last (head # others)) dvd amount"
    and "100 \<le> amount"
    and "amount \<le> totalValue (head # others)"
    and "\<forall>k<length (head # others).
           (amount - totalValue (take k (head # others))) div noteValue ((head # others) ! k)
             \<noteq> noteCount ((head # others) ! k)"
  shows "success (fst (MainHandler_dispense head others amount)) \<and>
         success (fst (dispense head others amount))"
proof -
  from assms(4) have "0 \<le> amount" by simp
  moreover from assms(6) have "\<not> exactHit (head # others) amount"
    unfolding exactHit_prefix by blast
  ultimately have "success (fst (dispense head others amount))"
    using dispense_no_exact_hit [OF assms(1,2,3) _ assms(5)] by blast
  with assms(4) show ?thesis by (simp add: MainHandler_dispense_flag)
qed

theorem C3_covered_amount_succeeds_witness:
  "list_all (\<lambda>h. 0 < noteValue h \<and> 0 \<le> noteCount h \<and> 100 dvd noteValue h)
     [ThousandWorthHandler 10, FiveHundredWorthHandler 10, HundredWorthHandler 10] \<and>
   noteValue (last [ThousandWorthHandler 10, FiveHundredWorthHandler 10, HundredWorthHandler 10]) = 100 \<and>
   successively (\<lambda>h n. noteValue h \<le> noteValue n * noteCount n)
     [ThousandWorthHandler 10, FiveHundredWorthHandler 10, HundredWorthHandler 10] \<and>
   (100::int) dvd 12700 \<and> (100::int) \<le> 12700 \<and>
   12700 \<le> totalValue [ThousandWorthHandler 10, FiveHundredWorthHandler 10, HundredWorthHandler 10] \<and>
   \<not> exactHit [ThousandWorthHandler 10, FiveHundredWorthHandler 10, HundredWorthHandler 10] 12700 \<and>
   success (fst (MainHandler_dispense (ThousandWorthHandler 10)
      [FiveHundredWorthHandler 10, HundredWorthHandler 10] 12700)) \<and>
   (100::int) dvd 2700 \<and> (100::int) \<le> 2700 \<and>
   2700 \<le> totalValue [ThousandWorthHandler 10, FiveHundredWorthHandler 10, HundredWorthHandler 10] \<and>
   \<not> exactHit [ThousandWorthHandler 10, FiveHundredWorthHandler 10, HundredWorthHandler 10] 2700 \<and>
   success (fst (MainHandler_dispense (ThousandWorthHandler 10)
      [FiveHundredWorthHandler 10, HundredWorthHandler 10] 2700))"
proof -
  let ?chain = "ThousandWorthHandler 10 # [FiveHundredWorthHandler 10, HundredWorthHandler 10]"
  have l: "noteValue (last ?chain) = 100"
    by (simp add: handler_defs)
  have p: "\<forall>h\<in>set ?chain. 0 < noteValue h \<and> 0 \<le> noteCount h \<and>
      noteValue (last ?chain) dvd noteValue h"
    unfolding l by (simp add: handler_defs)
  have c: "successively (\<lambda>h n. noteValue h \<le> noteValue n * noteCount n) ?chain"
    by (simp add: handler_defs)
  have t: "totalValue ?chain = 16000"
    by (simp add: handler_defs totalValue_def)
  have d1: "noteValue (last ?chain) dvd 12700" and d2: "noteValue (last ?chain) dvd 2700"
    unfolding l by simp_all
  have g1: "(100::int) \<le> 12700" and g2: "(100::int) \<le> 2700" by simp_all
  have b1: "12700 \<le> totalValue ?chain" and b2: "2700 \<le> totalValue ?chain"
    unfolding t by simp_all
  have n1: "\<not> exactHit ?chain 12700" and n2: "\<not> exactHit ?chain 2700"
    by (simp_all add: handler_defs)
  have e1: "\<forall>k<length ?chain.
      (12700 - totalValue (take k ?chain)) div noteValue (?chain ! k) \<noteq> noteCount (?chain ! k)"
    using n1 unfolding exactHit_prefix by blast
  have e2: "\<forall>k<length ?chain.
      (2700 - totalValue (take k ?chain)) div noteValue (?chain ! k) \<noteq> noteCount (?chain ! k)"
    using n2 unfolding exactHit_prefix by blast
  have s1: "success (fst (MainHandler_dispense (ThousandWorthHandler 10)
      [FiveHundredWorthHandler 10, HundredWorthHandler 10] 12700))"
    using C3_covered_amount_succeeds [OF p c d1 g1 b1 e1] by (rule conjunct1)
  have s2: "success (fst (MainHandler_dispense (ThousandWorthHandler 10)
      [FiveHundredWorthHandler 10, HundredWorthHandler 10] 2700))"
    using C3_covered_amount_succeeds [OF p c d2 g2 b2 e2] by (rule conjunct1)
  have a: "list_all (\<lambda>h. 0 < noteValue h \<and> 0 \<le> noteCount h \<and> 100 dvd noteValue h)
     [ThousandWorthHandler 10, FiveHundredWorthHandler 10, HundredWorthHandler 10]"
    by (simp add: handler_defs)
  have x1: "(100::int) dvd 12700" and x2: "(100::int) dvd 2700" by simp_all
  from a l c x1 g1 b1 n1 s1 x2 g2 b2 n2 s2 show ?thesis by (intro conjI)
qed

text \<open>
  C4. The claim lets a handler with a successor allocate its entire stock whenever
  \<open>requiredNotes \<ge> noteCount\<close>. The second branch of the source tests
  \<open>requiredNotes > noteCount\<close>, and the first \<open>requiredNotes < noteCount\<close>, so at
  \<open>requiredNotes = noteCount\<close> neither runs: the handler holding exactly the ten notes of
  1000 that 10000 requires allocates nothing, keeps its stock and passes the whole amount
  on, and the request fails although 16000 is in stock.
\<close>

theorem C4_exact_stock_allocates_nothing:
  "10000 div noteValue (ThousandWorthHandler 10) = noteCount (ThousandWorthHandler 10) \<and>
   allocate (ThousandWorthHandler 10) True 10000 = (Map.empty, 10000, 10) \<and>
   MainHandler_dispense (ThousandWorthHandler 10)
     [FiveHundredWorthHandler 10, HundredWorthHandler 10] 10000 =
     (\<lparr>success = False, notesDispensed = Map.empty\<rparr>,
      [ThousandWorthHandler 10, FiveHundredWorthHandler 10, HundredWorthHandler 10])"
  unfolding MainHandler_dispense_def example_10000
  by (simp add: handler_defs allocate_def)

text \<open>
  C5. A request with \<open>amount \<le> 0\<close> or \<open>amount < 100\<close> is answered by
  \<open>MainHandler.dispense\<close> with \<open>{success: false, notesDispensed: {}}\<close>; no handler
  is called, so the chain is returned as it was.
\<close>

theorem C5_gate_rejects_small_amounts:
  assumes "amount \<le> 0 \<or> amount < 100"
  shows "MainHandler_dispense head others amount =
           (\<lparr>success = False, notesDispensed = Map.empty\<rparr>, head # others)"
  using assms by (simp add: MainHandler_dispense_def)

theorem C5_gate_rejects_small_amounts_witness:
  "((99::int) \<le> 0 \<or> (99::int) < 100) \<and>
   MainHandler_dispense (ThousandWorthHandler 10)
      [FiveHundredWorthHandler 10, HundredWorthHandler 10] 99 =
     (\<lparr>success = False, notesDispensed = Map.empty\<rparr>,
      [ThousandWorthHandler 10, FiveHundredWorthHandler 10, HundredWorthHandler 10])"
proof -
  have h: "(99::int) \<le> 0 \<or> (99::int) < 100" by simp
  from C5_gate_rejects_small_amounts [OF h] h show ?thesis by simp
qed

text \<open>
  C6, as stated: for \<open>amount \<ge> 100\<close> the entry point returns the result object of the
  chain head unchanged. This fails on a failing call: the head's response still carries
  its provisional allocation (one note of 1000 for the amount 1300 below), the entry
  point answers with an empty \<open>notesDispensed\<close>.
\<close>

theorem C6_failure_not_passed_through_counterexample:
  "(100::int) \<le> 1300 \<and>
   notesDispensed (fst (dispense (ThousandWorthHandler 10)
      [FiveHundredWorthHandler 1, HundredWorthHandler 2] 1300)) 1000 = Some 1 \<and>
   notesDispensed (fst (MainHandler_dispense (ThousandWorthHandler 10)
      [FiveHundredWorthHandler 1, HundredWorthHandler 2] 1300)) 1000 = None"
  unfolding MainHandler_dispense_def example_1300 by simp

text \<open>
  C6, amended: for \<open>amount \<ge> 100\<close> the entry point calls the chain head, leaves the
  chain as that call left it and returns the head's success flag; when the head
  succeeded it returns the head's result object unchanged, and when the head failed it
  returns \<open>{success: false, notesDispensed: {}}\<close>.
\<close>

theorem C6_result_of_chain_head:
  assumes "100 \<le> amount"
  shows "snd (MainHandler_dispense head others amount) = snd (dispense head others amount) \<and>
         success (fst (MainHandler_dispense head others amount)) =
           success (fst (dispense head others amount)) \<and>
         (success (fst (dispense head others amount)) \<longrightarrow>
            fst (MainHandler_dispense head others amount) = fst (dispense head others amount)) \<and>
         (\<not> success (fst (dispense head others amount)) \<longrightarrow>
            fst (MainHandler_dispense head others amount) =
              \<lparr>success = False, notesDispensed = Map.empty\<rparr>)"
  using assms by (simp add: MainHandler_dispense_def split: prod.splits)

theorem C6_result_of_chain_head_witness:
  "(100::int) \<le> 2700 \<and>
   success (fst (dispense (ThousandWorthHandler 10)
      [FiveHundredWorthHandler 10, HundredWorthHandler 10] 2700)) \<and>
   fst (MainHandler_dispense (ThousandWorthHandler 10)
      [FiveHundredWorthHandler 10, HundredWorthHandler 10] 2700) =
   fst (dispense (ThousandWorthHandler 10)
      [FiveHundredWorthHandler 10, HundredWorthHandler 10] 2700) \<and>
   \<not> success (fst (dispense (ThousandWorthHandler 10)
      [FiveHundredWorthHandler 1, HundredWorthHandler 2] 1300)) \<and>
   fst (MainHandler_dispense (ThousandWorthHandler 10)
      [FiveHundredWorthHandler 1, HundredWorthHandler 2] 1300) =
     \<lparr>success = False, notesDispensed = Map.empty\<rparr>"
proof -
  have g: "(100::int) \<le> 2700" and g': "(100::int) \<le> 1300" by simp_all
  have s: "success (fst (dispense (ThousandWorthHandler 10)
      [FiveHundredWorthHandler 10, HundredWorthHandler 10] 2700))"
    by (simp only: example_2700) simp
  have f: "\<not> success (fst (dispense (ThousandWorthHandler 10)
      [FiveHundredWorthHandler 1, HundredWorthHandler 2] 1300))"
    by (simp only: example_1300) simp
  from C6_result_of_chain_head [OF g, of "ThousandWorthHandler 10"
      "[FiveHundredWorthHandler 10, HundredWorthHandler 10]"] s
  have a: "fst (MainHandler_dispense (ThousandWorthHandler 10)
      [FiveHundredWorthHandler 10, HundredWorthHandler 10] 2700) =
    fst (dispense (ThousandWorthHandler 10)
      [FiveHundredWorthHandler 10, HundredWorthHandler 10] 2700)"
    by blast
  from C6_result_of_chain_head [OF g', of "ThousandWorthHandler 10"
      "[FiveHundredWorthHandler 1, HundredWorthHandler 2]"] f
  have b: "fst (MainHandler_dispense (ThousandWorthHandler 10)
      [FiveHundredWorthHandler 1, HundredWorthHandler 2] 1300) =
     \<lparr>success = False, notesDispensed = Map.empty\<rparr>"
    by blast
  from g s a f b show ?thesis by (intro conjI)
qed

text \<open>
  C7, as stated: in every chain, an amount that is not a multiple of the smallest note
  value is refused. This fails where the smallest note value does not divide the others:
  with notes of 500 and 200 the amount 500 is not a multiple of 200 and is paid with one
  note of 500.
\<close>

theorem C7_indivisible_smallest_counterexample:
  "Min (noteValue ` set [\<lparr>noteValue = 500, noteCount = 10\<rparr>,
      \<lparr>noteValue = 200, noteCount = 10\<rparr>]) = 200 \<and>
   \<not> (200::int) dvd 500 \<and>
   success (fst (MainHandler_dispense \<lparr>noteValue = 500, noteCount = 10\<rparr>
      [\<lparr>noteValue = 200, noteCount = 10\<rparr>] 500))"
  unfolding MainHandler_dispense_def example_500_200 by simp

text \<open>
  C7, amended: in a chain with positive note values that are all multiples of the smallest
  note value of the chain, an amount that is not a multiple of that smallest note value is
  refused, whatever the stock. Stated for a call on the head handler and for a call
  through \<open>MainHandler\<close>.
\<close>

theorem C7_not_multiple_of_smallest_fails:
  assumes "\<forall>h\<in>set (head # others). 0 < noteValue h \<and>
              Min (noteValue ` set (head # others)) dvd noteValue h"
    and "\<not> Min (noteValue ` set (head # others)) dvd amount"
  shows "\<not> success (fst (dispense head others amount)) \<and>
         \<not> success (fst (MainHandler_dispense head others amount))"
proof -
  have dv: "\<forall>h\<in>set (head # others). Min (noteValue ` set (head # others)) dvd noteValue h"
    using assms(1) by blast
  have pair: "dispense head others amount =
      (fst (dispense head others amount), snd (dispense head others amount))"
    by simp
  have "\<not> success (fst (dispense head others amount))"
    using dispense_success_dvd [OF dv pair] assms(2) by blast
  then show ?thesis by (simp add: MainHandler_dispense_flag)
qed

theorem C7_not_multiple_of_smallest_fails_witness:
  "list_all (\<lambda>h. 0 < noteValue h \<and> 100 dvd noteValue h)
     [ThousandWorthHandler 10, FiveHundredWorthHandler 10, HundredWorthHandler 10] \<and>
   Min (noteValue ` set [ThousandWorthHandler 10, FiveHundredWorthHandler 10,
     HundredWorthHandler 10]) = 100 \<and>
   \<not> (100::int) dvd 150 \<and>
   \<not> success (fst (MainHandler_dispense (ThousandWorthHandler 10)
      [FiveHundredWorthHandler 10, HundredWorthHandler 10] 150))"
proof -
  have m: "Min (noteValue ` set (ThousandWorthHandler 10 #
      [FiveHundredWorthHandler 10, HundredWorthHandler 10])) = 100"
    by (simp add: handler_defs)
  have p: "\<forall>h\<in>set (ThousandWorthHandler 10 # [FiveHundredWorthHandler 10, HundredWorthHandler 10]).
      0 < noteValue h \<and>
      Min (noteValue ` set (ThousandWorthHandler 10 #
        [FiveHundredWorthHandler 10, HundredWorthHandler 10])) dvd noteValue h"
    unfolding m by (simp add: handler_defs)
  have n: "\<not> Min (noteValue ` set (ThousandWorthHandler 10 #
      [FiveHundredWorthHandler 10, HundredWorthHandler 10])) dvd 150"
    unfolding m by simp
  from C7_not_multiple_of_smallest_fails [OF p n]
  have "\<not> success (fst (MainHandler_dispense (ThousandWorthHandler 10)
      [FiveHundredWorthHandler 10, HundredWorthHandler 10] 150))"
    by blast
  moreover have "list_all (\<lambda>h. 0 < noteValue h \<and> 100 dvd noteValue h)
     [ThousandWorthHandler 10, FiveHundredWorthHandler 10, HundredWorthHandler 10]"
    by (simp add: handler_defs)
  moreover have "\<not> (100::int) dvd 150" by simp
  ultimately show ?thesis using m by simp
qed

text \<open>
  C8. If every handler of the chain has a positive note value and a non-negative
  \<open>noteCount\<close> before a dispense call, then every handler has a non-negative
  \<open>noteCount\<close> after it (for a call on the head handler and for one through
  \<open>MainHandler\<close>); the allocation step of each handler, on any amount, leaves a
  non-negative count, allocates no more notes than the handler holds and takes exactly the
  allocated notes from the stock; and with distinct note values no count in the returned
  \<open>notesDispensed\<close> exceeds the stock of the handler of that note value.
\<close>

theorem C8_stock_never_negative:
  assumes "\<forall>h\<in>set (head # others). 0 < noteValue h \<and> 0 \<le> noteCount h"
  shows "(\<forall>h\<in>set (snd (dispense head others amount)). 0 \<le> noteCount h) \<and>
         (\<forall>h\<in>set (snd (MainHandler_dispense head others amount)). 0 \<le> noteCount h) \<and>
         (\<forall>h\<in>set (head # others). \<forall>hasNext a.
            0 \<le> snd (snd (allocate h hasNext a)) \<and>
            orZero (fst (allocate h hasNext a) (noteValue h)) \<le> noteCount h \<and>
            snd (snd (allocate h hasNext a)) =
              noteCount h - orZero (fst (allocate h hasNext a) (noteValue h))) \<and>
         (distinct (map noteValue (head # others)) \<longrightarrow>
            (\<forall>h\<in>set (head # others).
               orZero (notesDispensed (fst (dispense head others amount)) (noteValue h))
                 \<le> noteCount h))"
proof -
  from assms have nn: "\<forall>h\<in>set (head # others). 0 \<le> noteCount h" by simp
  have pair: "dispense head others amount =
      (fst (dispense head others amount), snd (dispense head others amount))"
    by simp
  have handler: "\<forall>h\<in>set (snd (dispense head others amount)). 0 \<le> noteCount h"
    using dispense_counts_nonneg [OF nn pair] .
  have main: "\<forall>h\<in>set (snd (MainHandler_dispense head others amount)). 0 \<le> noteCount h"
    using handler nn by (simp only: MainHandler_dispense_chain split: if_splits) simp
  have step: "0 \<le> snd (snd (allocate h hasNext a)) \<and>
      orZero (fst (allocate h hasNext a) (noteValue h)) \<le> noteCount h \<and>
      snd (snd (allocate h hasNext a)) =
        noteCount h - orZero (fst (allocate h hasNext a) (noteValue h))"
    if "h \<in> set (head # others)" for h hasNext a
  proof -
    from that nn have c0: "0 \<le> noteCount h" by blast
    have al: "allocate h hasNext a = (fst (allocate h hasNext a),
        fst (snd (allocate h hasNext a)), snd (snd (allocate h hasNext a)))"
      by simp
    from allocate_bounds [OF c0 al] allocate_count [OF al] show ?thesis by simp
  qed
  have within: "orZero (notesDispensed (fst (dispense head others amount)) (noteValue h))
      \<le> noteCount h"
    if "distinct (map noteValue (head # others))" "h \<in> set (head # others)" for h
    using dispense_notes_within_stock [OF that(1) nn pair that(2)] .
  show ?thesis
    using handler main step within by blast
qed

theorem C8_stock_never_negative_witness:
  "list_all (\<lambda>h. 0 < noteValue h \<and> 0 \<le> noteCount h)
     [ThousandWorthHandler 10, FiveHundredWorthHandler 10, HundredWorthHandler 10] \<and>
   list_all (\<lambda>h. 0 \<le> noteCount h)
     (snd (MainHandler_dispense (ThousandWorthHandler 10)
        [FiveHundredWorthHandler 10, HundredWorthHandler 10] 2700)) \<and>
   snd (MainHandler_dispense (ThousandWorthHandler 10)
        [FiveHundredWorthHandler 10, HundredWorthHandler 10] 2700) =
     [ThousandWorthHandler 8, FiveHundredWorthHandler 9, HundredWorthHandler 8]"
proof -
  have p: "\<forall>h\<in>set (ThousandWorthHandler 10 # [FiveHundredWorthHandler 10, HundredWorthHandler 10]).
      0 < noteValue h \<and> 0 \<le> noteCount h"
    by (simp add: handler_defs)
  from C8_stock_never_negative [OF p, of 2700]
  have "\<forall>h\<in>set (snd (MainHandler_dispense (ThousandWorthHandler 10)
        [FiveHundredWorthHandler 10, HundredWorthHandler 10] 2700)). 0 \<le> noteCount h"
    by blast
  then have "list_all (\<lambda>h. 0 \<le> noteCount h)
     (snd (MainHandler_dispense (ThousandWorthHandler 10)
        [FiveHundredWorthHandler 10, HundredWorthHandler 10] 2700))"
    by (simp only: list_all_iff)
  moreover have "list_all (\<lambda>h. 0 < noteValue h \<and> 0 \<le> noteCount h)
     [ThousandWorthHandler 10, FiveHundredWorthHandler 10, HundredWorthHandler 10]"
    by (simp add: handler_defs)
  moreover have "snd (MainHandler_dispense (ThousandWorthHandler 10)
        [FiveHundredWorthHandler 10, HundredWorthHandler 10] 2700) =
     [ThousandWorthHandler 8, FiveHundredWorthHandler 9, HundredWorthHandler 8]"
    unfolding MainHandler_dispense_def example_2700 by simp
  ultimately show ?thesis by (intro conjI)
qed

text \<open>
  C9. Order of assembly matters: with ten notes of each of 1000, 500 and 100, the amount
  2700 is dispensed by the chain in descending order and refused by the same handlers
  linked in ascending order, so the two results differ.
\<close>

theorem C9_handler_order_matters:
  "HundredWorthHandler 10 # [FiveHundredWorthHandler 10, ThousandWorthHandler 10] =
     rev (ThousandWorthHandler 10 # [FiveHundredWorthHandler 10, HundredWorthHandler 10]) \<and>
   (\<exists>amount.
      success (fst (MainHandler_dispense (ThousandWorthHandler 10)
         [FiveHundredWorthHandler 10, HundredWorthHandler 10] amount)) \<and>
      \<not> success (fst (MainHandler_dispense (HundredWorthHandler 10)
         [FiveHundredWorthHandler 10, ThousandWorthHandler 10] amount)) \<and>
      fst (MainHandler_dispense (ThousandWorthHandler 10)
         [FiveHundredWorthHandler 10, HundredWorthHandler 10] amount) \<noteq>
      fst (MainHandler_dispense (HundredWorthHandler 10)
         [FiveHundredWorthHandler 10, ThousandWorthHandler 10] amount))"
proof -
  have d: "success (fst (MainHandler_dispense (ThousandWorthHandler 10)
         [FiveHundredWorthHandler 10, HundredWorthHandler 10] 2700))"
    unfolding MainHandler_dispense_def example_2700 by simp
  have a: "\<not> success (fst (MainHandler_dispense (HundredWorthHandler 10)
         [FiveHundredWorthHandler 10, ThousandWorthHandler 10] 2700))"
    unfolding MainHandler_dispense_def example_ascending_2700 by simp
  from d a have "fst (MainHandler_dispense (ThousandWorthHandler 10)
         [FiveHundredWorthHandler 10, HundredWorthHandler 10] 2700) \<noteq>
      fst (MainHandler_dispense (HundredWorthHandler 10)
         [FiveHundredWorthHandler 10, ThousandWorthHandler 10] 2700)"
    by auto
  with d a show ?thesis by auto
qed

text \<open>
  C10. For a chain with distinct positive note values: if a dispense call returns
  \<open>success = true\<close>, the chain after the call is the chain before it with each
  handler's \<open>noteCount\<close> reduced by the count recorded under its note value in the
  returned \<open>notesDispensed\<close> (zero if the key is absent); \<open>noteValue\<close> and the
  order of the chain are unchanged.
\<close>

theorem C10_successful_dispense_debits_stock:
  assumes "distinct (map noteValue (head # others))"
    and "\<forall>h\<in>set (head # others). 0 < noteValue h"
  shows "(success (fst (dispense head others amount)) \<longrightarrow>
            snd (dispense head others amount) =
              map (\<lambda>h. h\<lparr>noteCount := noteCount h -
                     orZero (notesDispensed (fst (dispense head others amount)) (noteValue h))\<rparr>)
                (head # others)) \<and>
         (success (fst (MainHandler_dispense head others amount)) \<longrightarrow>
            snd (MainHandler_dispense head others amount) =
              map (\<lambda>h. h\<lparr>noteCount := noteCount h -
                     orZero (notesDispensed (fst (MainHandler_dispense head others amount))
                       (noteValue h))\<rparr>)
                (head # others))"
proof -
  have handler: "snd (dispense head others amount) =
      map (debit (notesDispensed (fst (dispense head others amount)))) (head # others)"
    if "success (fst (dispense head others amount))"
  proof -
    have "dispense head others amount =
        (fst (dispense head others amount), snd (dispense head others amount))"
      by simp
    from dispense_success_debits [OF assms(1) this that] show ?thesis .
  qed
  have unf: "debit m = (\<lambda>h. h\<lparr>noteCount := noteCount h - orZero (m (noteValue h))\<rparr>)" for m
    by (rule ext) (simp add: debit_def)
  show ?thesis
  proof (intro conjI impI)
    assume "success (fst (dispense head others amount))"
    from handler [OF this] show "snd (dispense head others amount) =
        map (\<lambda>h. h\<lparr>noteCount := noteCount h -
               orZero (notesDispensed (fst (dispense head others amount)) (noteValue h))\<rparr>)
          (head # others)"
      by (simp only: unf)
  next
    assume s: "success (fst (MainHandler_dispense head others amount))"
    from MainHandler_dispense_success [OF s]
    have e: "MainHandler_dispense head others amount = dispense head others amount" by simp
    from s handler have "snd (dispense head others amount) =
        map (debit (notesDispensed (fst (dispense head others amount)))) (head # others)"
      by (simp add: e)
    then show "snd (MainHandler_dispense head others amount) =
        map (\<lambda>h. h\<lparr>noteCount := noteCount h -
               orZero (notesDispensed (fst (MainHandler_dispense head others amount))
                 (noteValue h))\<rparr>)
          (head # others)"
      by (simp only: unf e)
  qed
qed

theorem C10_successful_dispense_debits_stock_witness:
  "distinct (map noteValue
     [ThousandWorthHandler 10, FiveHundredWorthHandler 10, HundredWorthHandler 10]) \<and>
   list_all (\<lambda>h. 0 < noteValue h)
     [ThousandWorthHandler 10, FiveHundredWorthHandler 10, HundredWorthHandler 10] \<and>
   success (fst (MainHandler_dispense (ThousandWorthHandler 10)
      [FiveHundredWorthHandler 10, HundredWorthHandler 10] 2700)) \<and>
   snd (MainHandler_dispense (ThousandWorthHandler 10)
      [FiveHundredWorthHandler 10, HundredWorthHandler 10] 2700) =
     map (\<lambda>h. h\<lparr>noteCount := noteCount h -
            orZero (notesDispensed (fst (MainHandler_dispense (ThousandWorthHandler 10)
              [FiveHundredWorthHandler 10, HundredWorthHandler 10] 2700)) (noteValue h))\<rparr>)
       [ThousandWorthHandler 10, FiveHundredWorthHandler 10, HundredWorthHandler 10] \<and>
   snd (MainHandler_dispense (ThousandWorthHandler 10)
      [FiveHundredWorthHandler 10, HundredWorthHandler 10] 2700) =
     [ThousandWorthHandler 8, FiveHundredWorthHandler 9, HundredWorthHandler 8]"
proof -
  have d: "distinct (map noteValue
      (ThousandWorthHandler 10 # [FiveHundredWorthHandler 10, HundredWorthHandler 10]))"
    by (simp add: handler_defs)
  have p: "\<forall>h\<in>set (ThousandWorthHandler 10 # [FiveHundredWorthHandler 10, HundredWorthHandler 10]).
      0 < noteValue h"
    by (simp add: handler_defs)
  have m: "MainHandler_dispense (ThousandWorthHandler 10)
      [FiveHundredWorthHandler 10, HundredWorthHandler 10] 2700 =
      (\<lparr>success = True, notesDispensed = [1000 \<mapsto> 2, 500 \<mapsto> 1, 100 \<mapsto> 2]\<rparr>,
       [ThousandWorthHandler 8, FiveHundredWorthHandler 9, HundredWorthHandler 8])"
    unfolding MainHandler_dispense_def example_2700 by simp
  have s: "success (fst (MainHandler_dispense (ThousandWorthHandler 10)
      [FiveHundredWorthHandler 10, HundredWorthHandler 10] 2700))"
    by (simp add: m)
  from C10_successful_dispense_debits_stock [OF d p, of 2700] s
  have "snd (MainHandler_dispense (ThousandWorthHandler 10)
      [FiveHundredWorthHandler 10, HundredWorthHandler 10] 2700) =
     map (\<lambda>h. h\<lparr>noteCount := noteCount h -
            orZero (notesDispensed (fst (MainHandler_dispense (ThousandWorthHandler 10)
              [FiveHundredWorthHandler 10, HundredWorthHandler 10] 2700)) (noteValue h))\<rparr>)
       [ThousandWorthHandler 10, FiveHundredWorthHandler 10, HundredWorthHandler 10]"
    by blast
  moreover have "snd (MainHandler_dispense (ThousandWorthHandler 10)
      [FiveHundredWorthHandler 10, HundredWorthHandler 10] 2700) =
     [ThousandWorthHandler 8, FiveHundredWorthHandler 9, HundredWorthHandler 8]"
    by (simp add: m)
  moreover have "list_all (\<lambda>h. 0 < noteValue h)
     [ThousandWorthHandler 10, FiveHundredWorthHandler 10, HundredWorthHandler 10]"
    using p by (simp add: list_all_iff)
  moreover have "distinct (map noteValue
     [ThousandWorthHandler 10, FiveHundredWorthHandler 10, HundredWorthHandler 10])"
    using d .
  ultimately show ?thesis using s by (intro conjI)
qed

end
